theory Spec2Isabelle
  imports Main "HOL-Library.Sublist"
begin

section \<open>The processing queue of src/services/processingQueue.js\<close>

text \<open>
  The class \<^verbatim>\<open>ProcessingQueue\<close> runs on JavaScript's single thread: a call runs to its
  end or to its next \<^verbatim>\<open>await\<close> without interleaving. The embedding therefore has one
  state record for the fields of the object, one function per method, each covering the
  synchronous stretch of the method, and an event per stimulus from outside: a method call,
  the settling of an awaited promise, a \<^verbatim>\<open>setImmediate\<close> callback.
  What the object tells the outside (\<^verbatim>\<open>logger\<close> lines, emitted events, calls of the
  processor's routines) is appended to a trace.
\<close>

subsection \<open>Jobs\<close>

type_synonym payload = string
type_synonym time = nat

text \<open>
  The options bag as \<^verbatim>\<open>routes/queueRoutes.js\<close> builds it:
  \<^verbatim>\<open>{ ...options, mimetype: fileInfo.mimetype }\<close>. It is always an object there, so
  \<^verbatim>\<open>options.mimetype\<close> cannot raise; an absent mimetype is \<open>None\<close>.
\<close>

record job_options =
  mimetype :: "string option"
  others :: "(string \<times> string) list"

text \<open>
  The argument of \<^verbatim>\<open>addJob\<close>. The \<^verbatim>\<open>processor\<close> field is the one exported
  \<^verbatim>\<open>FileProcessor\<close> object and is left out; its routines appear as \<open>call\<close> values.
  An absent priority is \<open>None\<close>.
\<close>

record job_spec =
  spec_type :: string
  spec_filePath :: string
  spec_operation :: string
  spec_options :: job_options
  spec_priority :: "string option"

record job =
  job_id :: string
  jtype :: string
  filePath :: string
  operation :: string
  options :: job_options
  status :: string
  createdAt :: time
  priority :: string
  startedAt :: "time option"
  completedAt :: "time option"
  failedAt :: "time option"
  error :: "string option"
  result :: "payload option"

subsection \<open>The operation dispatcher: executeJob and its three helpers\<close>

text \<open>
  A call of one of the processor's routines, with its arguments. The dispatcher either
  raises (\<open>Inl\<close> the message of the \<^verbatim>\<open>Error\<close>) before calling anything, or makes exactly
  one such call (\<open>Inr\<close>) and awaits it.
\<close>

datatype call =
  ResizeImage string job_options
| ConvertImage string job_options
| CompressImage string job_options
| ConvertDocument string "string option" job_options
| ExtractFileMetadata string "string option"

definition processImageJob :: "string \<Rightarrow> string \<Rightarrow> job_options \<Rightarrow> string + call" where
  "processImageJob fp opn opts =
     (if opn = ''resize'' then Inr (ResizeImage fp opts)
      else if opn = ''convert'' then Inr (ConvertImage fp opts)
      else if opn = ''compress'' then Inr (CompressImage fp opts)
      else Inl (''Unsupported image operation: '' @ opn))"

definition processDocumentJob :: "string \<Rightarrow> string \<Rightarrow> job_options \<Rightarrow> string + call" where
  "processDocumentJob fp opn opts =
     (if opn = ''convert'' then Inr (ConvertDocument fp (mimetype opts) opts)
      else if opn = ''extract'' then Inr (ExtractFileMetadata fp (mimetype opts))
      else Inl (''Unsupported document operation: '' @ opn))"

definition processMediaJob :: "string \<Rightarrow> string \<Rightarrow> job_options \<Rightarrow> string + call" where
  "processMediaJob fp opn opts =
     (if opn = ''extract'' then Inr (ExtractFileMetadata fp (mimetype opts))
      else Inl (''Unsupported media operation: '' @ opn))"

definition executeJob :: "job \<Rightarrow> string + call" where
  "executeJob j =
     (if jtype j = ''image'' then processImageJob (filePath j) (operation j) (options j)
      else if jtype j = ''document'' then processDocumentJob (filePath j) (operation j) (options j)
      else if jtype j = ''media'' then processMediaJob (filePath j) (operation j) (options j)
      else Inl (''Unknown job type: '' @ jtype j))"

subsection \<open>The state of a ProcessingQueue object\<close>

text \<open>
  A run of \<^verbatim>\<open>processNext\<close> that is suspended at its \<^verbatim>\<open>await this.executeJob(job)\<close>:
  its local variable \<^verbatim>\<open>job\<close> and the promise it waits for, which the dispatcher has
  either rejected already or tied to a call of the processor.
\<close>

record suspended =
  sjob :: job
  promise :: "string + call"

datatype trace_event =
  JobAdded job
| JobStarting job
| Called call
| JobCompleted job
| JobFailed job
| JobRemoved job
| QueueCleared nat

text \<open>
  \<open>queue\<close>, \<open>processing\<close>, \<open>maxConcurrent\<close> and \<open>activeJobs\<close> are the fields of the class.
  \<open>awaiting\<close> holds the suspended runs of \<^verbatim>\<open>processNext\<close>, \<open>immediates\<close> counts the
  callbacks handed to \<^verbatim>\<open>setImmediate\<close> that have not run yet.
\<close>

record state =
  queue :: "job list"
  processing :: bool
  maxConcurrent :: nat
  activeJobs :: int
  awaiting :: "suspended list"
  immediates :: nat
  trace :: "trace_event list"

definition constructor :: state where
  "constructor =
     \<lparr>queue = [], processing = False, maxConcurrent = 2, activeJobs = 0,
      awaiting = [], immediates = 0, trace = []\<rparr>"

subsection \<open>Sorting the queue\<close>

text \<open>
  \<^verbatim>\<open>priorityOrder[p]\<close> for the object \<^verbatim>\<open>{ high: 3, normal: 2, low: 1 }\<close>: a number for
  the three names, no number for anything else.
\<close>

definition priorityOrder :: "string \<Rightarrow> int option" where
  "priorityOrder p =
     (if p = ''high'' then Some 3
      else if p = ''normal'' then Some 2
      else if p = ''low'' then Some 1
      else None)"

text \<open>
  The comparator of line 40-43. A difference with a missing operand is \<^verbatim>\<open>NaN\<close>, which
  \<^verbatim>\<open>Array.prototype.sort\<close> reads as \<open>0\<close>.
\<close>

definition compareFn :: "job \<Rightarrow> job \<Rightarrow> int" where
  "compareFn a b =
     (case (priorityOrder (priority b), priorityOrder (priority a)) of
        (Some pb, Some pa) \<Rightarrow> pb - pa
      | _ \<Rightarrow> 0)"

text \<open>
  \<^verbatim>\<open>Array.prototype.sort\<close> is stable (ECMAScript 2019). When every priority in the queue
  is one of low, normal and high, which is all that \<^verbatim>\<open>routes/queueRoutes.js\<close> lets
  through (line 35), the comparator is consistent and the result of the sort is the one
  stable sorted arrangement; insertion from the right computes it, and \<open>sortQueue\<close> is the
  code's sort for these queues. A queue of at most one job is returned as it is, whatever
  its priority. For a longer queue holding another priority the comparator is inconsistent,
  ECMAScript leaves the order to the engine, and \<open>sortQueue\<close> is not the code's sort there:
  no property below is stated for such a queue, and in a run the sort never meets one, since
  it is only reached with the single job just added.
\<close>

fun insertJob :: "job \<Rightarrow> job list \<Rightarrow> job list" where
  "insertJob x [] = [x]"
| "insertJob x (y # ys) = (if compareFn x y \<le> 0 then x # y # ys else y # insertJob x ys)"

fun sortQueue :: "job list \<Rightarrow> job list" where
  "sortQueue [] = []"
| "sortQueue (x # xs) = insertJob x (sortQueue xs)"

subsection \<open>processNext\<close>

text \<open>
  The head of the \<^verbatim>\<open>while\<close> loop of line 45 up to the \<^verbatim>\<open>await\<close> of line 56, or, when the
  loop condition fails, the code after the loop (lines 77-82).
\<close>

definition dispatchLoop :: "time \<Rightarrow> state \<Rightarrow> state" where
  "dispatchLoop now s =
     (case queue s of
        j # rest \<Rightarrow>
          if activeJobs s < int (maxConcurrent s) then
            let j' = j\<lparr>status := ''processing'', startedAt := Some now\<rparr>;
                p = executeJob j'
            in s\<lparr>queue := rest,
                 activeJobs := activeJobs s + 1,
                 trace := trace s @ JobStarting j # (case p of Inr c \<Rightarrow> [Called c] | Inl m \<Rightarrow> []),
                 awaiting := awaiting s @ [\<lparr>sjob = j', promise = p\<rparr>]\<rparr>
          else s\<lparr>processing := False, immediates := Suc (immediates s)\<rparr>
      | [] \<Rightarrow> s\<lparr>processing := False\<rparr>)"

definition processNext :: "time \<Rightarrow> state \<Rightarrow> state" where
  "processNext now s =
     (if processing s \<or> activeJobs s \<ge> int (maxConcurrent s) \<or> queue s = [] then s
      else dispatchLoop now (s\<lparr>processing := True, queue := sortQueue (queue s)\<rparr>))"

text \<open>
  The rest of a loop iteration once the awaited promise has settled (lines 58-74), then the
  loop head again. A promise the dispatcher rejected settles with that error whatever the
  processor does; otherwise \<open>outcome\<close> is what the routine returned (\<open>Inr\<close>) or the message
  of the \<^verbatim>\<open>Error\<close> it raised (\<open>Inl\<close>).
\<close>

definition settle :: "nat \<Rightarrow> string + payload \<Rightarrow> time \<Rightarrow> state \<Rightarrow> state" where
  "settle i outcome now s =
     (if i < length (awaiting s) then
        let a = awaiting s ! i;
            r = (case promise a of Inl m \<Rightarrow> Inl m | Inr c \<Rightarrow> outcome);
            ev = (case r of
                    Inr res \<Rightarrow>
                      JobCompleted ((sjob a)\<lparr>status := ''completed'', completedAt := Some now,
                                            result := Some res\<rparr>)
                  | Inl m \<Rightarrow>
                      JobFailed ((sjob a)\<lparr>status := ''failed'', failedAt := Some now,
                                         error := Some m\<rparr>))
        in dispatchLoop now
             (s\<lparr>awaiting := take i (awaiting s) @ drop (Suc i) (awaiting s),
                trace := trace s @ [ev],
                activeJobs := activeJobs s - 1\<rparr>)
      else s)"

subsection \<open>The public methods\<close>

text \<open>
  \<^verbatim>\<open>job.priority || 'normal'\<close>: an absent or empty priority becomes \<^verbatim>\<open>'normal'\<close>.
  The identifier is built from the clock and a random number; here the caller supplies it.
\<close>

definition makeJob :: "job_spec \<Rightarrow> string \<Rightarrow> time \<Rightarrow> job" where
  "makeJob sp jid now =
     \<lparr>job_id = jid, jtype = spec_type sp, filePath = spec_filePath sp,
      operation = spec_operation sp, options = spec_options sp,
      status = ''queued'', createdAt = now,
      priority = (case spec_priority sp of None \<Rightarrow> ''normal''
                  | Some p \<Rightarrow> if p = [] then ''normal'' else p),
      startedAt = None, completedAt = None, failedAt = None, error = None, result = None\<rparr>"

definition addJob :: "job_spec \<Rightarrow> string \<Rightarrow> time \<Rightarrow> state \<Rightarrow> string \<times> state" where
  "addJob sp jid now s =
     (let jobWithId = makeJob sp jid now
      in (jid, processNext now (s\<lparr>queue := queue s @ [jobWithId],
                                  trace := trace s @ [JobAdded jobWithId]\<rparr>)))"

record snapshot =
  snap_id :: string
  snap_status :: string
  snap_type :: string
  snap_operation :: string
  snap_createdAt :: time
  snap_startedAt :: "time option"
  snap_completedAt :: "time option"
  snap_failedAt :: "time option"
  snap_error :: "string option"
  snap_result :: "payload option"

datatype job_status = NotFound | Found snapshot

text \<open>The \<^verbatim>\<open>status\<close> property of the object \<^verbatim>\<open>getJobStatus\<close> returns.\<close>

fun statusOf :: "job_status \<Rightarrow> string" where
  "statusOf NotFound = ''not_found''"
| "statusOf (Found sn) = snap_status sn"

definition getJobStatus :: "string \<Rightarrow> state \<Rightarrow> job_status" where
  "getJobStatus jid s =
     (case find (\<lambda>j. job_id j = jid) (queue s) of
        None \<Rightarrow> NotFound
      | Some j \<Rightarrow>
          Found \<lparr>snap_id = job_id j, snap_status = status j, snap_type = jtype j,
                 snap_operation = operation j, snap_createdAt = createdAt j,
                 snap_startedAt = startedAt j, snap_completedAt = completedAt j,
                 snap_failedAt = failedAt j, snap_error = error j, snap_result = result j\<rparr>)"

record queue_status =
  qs_queued :: nat
  qs_processing :: int
  qs_total :: int
  qs_maxConcurrent :: nat

definition getQueueStatus :: "state \<Rightarrow> queue_status" where
  "getQueueStatus s =
     \<lparr>qs_queued = length (queue s), qs_processing = activeJobs s,
      qs_total = int (length (queue s)) + activeJobs s, qs_maxConcurrent = maxConcurrent s\<rparr>"

definition clearQueue :: "state \<Rightarrow> nat \<times> state" where
  "clearQueue s =
     (let clearedCount = length (queue s)
      in (clearedCount, s\<lparr>queue := [], trace := trace s @ [QueueCleared clearedCount]\<rparr>))"

fun findIndex :: "('a \<Rightarrow> bool) \<Rightarrow> 'a list \<Rightarrow> nat option" where
  "findIndex P [] = None"
| "findIndex P (x # xs) = (if P x then Some 0 else map_option Suc (findIndex P xs))"

definition removeJob :: "string \<Rightarrow> state \<Rightarrow> job option \<times> state" where
  "removeJob jid s =
     (case findIndex (\<lambda>j. job_id j = jid) (queue s) of
        Some i \<Rightarrow>
          (Some (queue s ! i),
           s\<lparr>queue := take i (queue s) @ drop (Suc i) (queue s),
             trace := trace s @ [JobRemoved (queue s ! i)]\<rparr>)
      | None \<Rightarrow> (None, s))"

subsection \<open>Runs\<close>

text \<open>
  What can happen to the object: a call of one of its state-changing methods, the settling
  of the promise that the \<open>i\<close>-th suspended run awaits, or a \<^verbatim>\<open>setImmediate\<close> callback.
  An event that is not possible in a state (no such suspended run, no pending callback)
  leaves the state as it is. Each event carries one reading of the clock, used for every
  \<^verbatim>\<open>new Date()\<close> of the stretch of code it runs.
\<close>

datatype event =
  AddJob job_spec string time
| Settle nat "string + payload" time
| Immediate time
| RemoveJob string
| ClearQueue

fun step :: "event \<Rightarrow> state \<Rightarrow> state" where
  "step (AddJob sp jid now) s = snd (addJob sp jid now s)"
| "step (Settle i outcome now) s = settle i outcome now s"
| "step (Immediate now) s =
     (if immediates s = 0 then s else processNext now (s\<lparr>immediates := immediates s - 1\<rparr>))"
| "step (RemoveJob jid) s = snd (removeJob jid s)"
| "step ClearQueue s = snd (clearQueue s)"

definition run :: "event list \<Rightarrow> state \<Rightarrow> state" where
  "run es s = foldl (\<lambda>s e. step e s) s es"

subsection \<open>Observations on states and traces\<close>

text \<open>The jobs the object holds, pending or awaited, whose status is \<^verbatim>\<open>'processing'\<close>.\<close>

definition processingJobs :: "state \<Rightarrow> job list" where
  "processingJobs s =
     filter (\<lambda>j. status j = ''processing'') (queue s @ map sjob (awaiting s))"

fun added :: "trace_event list \<Rightarrow> job list" where
  "added [] = []"
| "added (JobAdded j # t) = j # added t"
| "added (e # t) = added t"

fun started :: "trace_event list \<Rightarrow> job list" where
  "started [] = []"
| "started (JobStarting j # t) = j # started t"
| "started (e # t) = started t"

fun finished :: "trace_event list \<Rightarrow> job list" where
  "finished [] = []"
| "finished (JobCompleted j # t) = j # finished t"
| "finished (JobFailed j # t) = j # finished t"
| "finished (e # t) = finished t"

fun removed :: "trace_event list \<Rightarrow> job list" where
  "removed [] = []"
| "removed (JobRemoved j # t) = j # removed t"
| "removed (e # t) = removed t"

text \<open>The number of jobs discarded by all the clearings a trace reports.\<close>

fun cleared :: "trace_event list \<Rightarrow> nat" where
  "cleared [] = 0"
| "cleared (QueueCleared n # t) = n + cleared t"
| "cleared (e # t) = cleared t"

fun calls :: "trace_event list \<Rightarrow> call list" where
  "calls [] = []"
| "calls (Called c # t) = c # calls t"
| "calls (e # t) = calls t"

text \<open>A job as \<^verbatim>\<open>addJob\<close> leaves it in the queue: no lifecycle field set yet.\<close>

definition pendingJob :: "job \<Rightarrow> bool" where
  "pendingJob j \<longleftrightarrow> status j = ''queued'' \<and> startedAt j = None \<and> completedAt j = None \<and>
     failedAt j = None \<and> error j = None \<and> result j = None"

text \<open>The identifiers handed to \<^verbatim>\<open>addJob\<close> in a sequence of events, in order.\<close>

fun submitted :: "event list \<Rightarrow> string list" where
  "submitted [] = []"
| "submitted (AddJob sp jid now # es) = jid # submitted es"
| "submitted (e # es) = submitted es"

text \<open>
  The identifiers of the jobs the object holds or has finished: pending, awaited, and
  reported as completed or failed.
\<close>

definition knownIds :: "state \<Rightarrow> string list" where
  "knownIds s =
     map job_id (queue s) @ map (\<lambda>a. job_id (sjob a)) (awaiting s) @
     map job_id (finished (trace s))"

text \<open>What every state of a run has in common.\<close>

definition wf :: "state \<Rightarrow> bool" where
  "wf s \<longleftrightarrow> maxConcurrent s = 2 \<and> immediates s = 0 \<and>
     activeJobs s = int (length (awaiting s)) \<and> length (awaiting s) \<le> 1 \<and>
     (processing s = (awaiting s \<noteq> [])) \<and> (processing s \<or> queue s = []) \<and>
     list_all pendingJob (queue s) \<and>
     list_all (\<lambda>a. status (sjob a) = ''processing'' \<and> error (sjob a) = None \<and>
                   result (sjob a) = None \<and> promise a = executeJob (sjob a)) (awaiting s)"

text \<open>
  The priorities \<^verbatim>\<open>routes/queueRoutes.js\<close> lets through (line 35): the three names the
  comparator knows.
\<close>

definition validPriority :: "job \<Rightarrow> bool" where
  "validPriority j \<longleftrightarrow> priority j \<in> set [''low'', ''normal'', ''high'']"

text \<open>
  The category and operation pairs that have a \<^verbatim>\<open>case\<close> label (or the \<^verbatim>\<open>if\<close> of
  \<^verbatim>\<open>processMediaJob\<close>) in the dispatcher; every other pair ends in a \<^verbatim>\<open>throw\<close>.
\<close>

definition supported :: "string \<Rightarrow> string \<Rightarrow> bool" where
  "supported t opn \<longleftrightarrow>
     (t = ''image'' \<and> opn \<in> set [''resize'', ''convert'', ''compress'']) \<or>
     (t = ''document'' \<and> opn \<in> set [''convert'', ''extract'']) \<or>
     (t = ''media'' \<and> opn = ''extract'')"

text \<open>The message of the \<^verbatim>\<open>Error\<close> raised for such a pair, by the \<^verbatim>\<open>default\<close> branch reached.\<close>

definition unsupportedMessage :: "string \<Rightarrow> string \<Rightarrow> string" where
  "unsupportedMessage t opn =
     (if t = ''image'' then ''Unsupported image operation: '' @ opn
      else if t = ''document'' then ''Unsupported document operation: '' @ opn
      else if t = ''media'' then ''Unsupported media operation: '' @ opn
      else ''Unknown job type: '' @ t)"

subsection \<open>Sample submissions\<close>

definition exampleSpec :: "string \<Rightarrow> string \<Rightarrow> string option \<Rightarrow> job_spec" where
  "exampleSpec t opn p =
     \<lparr>spec_type = t, spec_filePath = ''uploads/sample'', spec_operation = opn,
      spec_options = \<lparr>mimetype = Some ''image/png'', others = []\<rparr>, spec_priority = p\<rparr>"

text \<open>Three jobs handed to a fresh queue, one after the other, nothing settling in between.\<close>

definition threeSubmissions :: "event list" where
  "threeSubmissions =
     [AddJob (exampleSpec ''image'' ''resize'' None) ''job_1'' 1,
      AddJob (exampleSpec ''image'' ''resize'' None) ''job_2'' 2,
      AddJob (exampleSpec ''image'' ''resize'' None) ''job_3'' 3]"

text \<open>
  A normal job, then a low and a high one while the first is running, then the first one
  completes.
\<close>

definition priorityScenario :: "event list" where
  "priorityScenario =
     [AddJob (exampleSpec ''image'' ''resize'' (Some ''normal'')) ''job_a'' 1,
      AddJob (exampleSpec ''image'' ''resize'' (Some ''low'')) ''job_b'' 2,
      AddJob (exampleSpec ''image'' ''resize'' (Some ''high'')) ''job_c'' 3,
      Settle 0 (Inr ''done'') 4]"

text \<open>
  The scenario of the specification: A (normal), B (high), C (normal) submitted in that
  order, then the first settling.
\<close>

definition tierScenario :: "event list" where
  "tierScenario =
     [AddJob (exampleSpec ''image'' ''resize'' (Some ''normal'')) ''job_a'' 1,
      AddJob (exampleSpec ''image'' ''resize'' (Some ''high'')) ''job_b'' 2,
      AddJob (exampleSpec ''image'' ''resize'' (Some ''normal'')) ''job_c'' 3,
      Settle 0 (Inr ''done'') 4]"

text \<open>One job handed to a fresh queue, and its routine returning.\<close>

definition singleJobDone :: "event list" where
  "singleJobDone =
     [AddJob (exampleSpec ''image'' ''resize'' None) ''job_1'' 1, Settle 0 (Inr ''done'') 2]"

definition mixedQueue :: "job list" where
  "mixedQueue =
     [makeJob (exampleSpec ''image'' ''resize'' (Some ''low'')) ''job_a'' 1,
      makeJob (exampleSpec ''image'' ''resize'' (Some ''high'')) ''job_b'' 2,
      makeJob (exampleSpec ''image'' ''resize'' None) ''job_c'' 3,
      makeJob (exampleSpec ''image'' ''resize'' (Some ''high'')) ''job_d'' 4]"

text \<open>The scenario of the specification: \<^verbatim>\<open>resize\<close> asked of a document.\<close>

definition docResize :: job_spec where
  "docResize = exampleSpec ''document'' ''resize'' None"

section \<open>Properties\<close>

subsection \<open>The sort keeps the jobs\<close>

lemma set_insertJob: "set (insertJob x ys) = insert x (set ys)"
  by (induction ys) auto

lemma set_sortQueue: "set (sortQueue xs) = set xs"
  by (induction xs) (auto simp: set_insertJob)

lemma compareFn_same: "priority x = priority y \<Longrightarrow> compareFn x y = 0"
  by (simp add: compareFn_def split: option.splits)

lemma filter_insertJob:
  "filter (\<lambda>j. priority j = p) (insertJob x ys) = filter (\<lambda>j. priority j = p) (x # ys)"
proof (induction ys)
  case Nil
  show ?case by simp
next
  case (Cons y ys)
  show ?case
  proof (cases "compareFn x y \<le> 0")
    case True
    then show ?thesis by simp
  next
    case False
    then have "priority x \<noteq> priority y" using compareFn_same [of x y] by auto
    with False Cons show ?thesis by auto
  qed
qed

lemma filter_sortQueue:
  "filter (\<lambda>j. priority j = p) (sortQueue xs) = filter (\<lambda>j. priority j = p) xs"
  by (induction xs) (simp_all add: filter_insertJob)

lemma compareFn_flip: "0 < compareFn x y \<Longrightarrow> compareFn y x < 0"
  by (auto simp: compareFn_def split: option.splits)

lemma sortQueue_fixed:
  "successively (\<lambda>a b. compareFn a b \<le> 0) xs \<Longrightarrow> sortQueue xs = xs"
proof (induction xs)
  case Nil
  show ?case by simp
next
  case (Cons x xs)
  then show ?case by (cases xs) (auto simp: successively_Cons)
qed

lemma successively_insertJob:
  "successively (\<lambda>a b. compareFn a b \<le> 0) ys \<Longrightarrow>
   successively (\<lambda>a b. compareFn a b \<le> 0) (insertJob x ys)"
proof (induction ys)
  case Nil
  show ?case by simp
next
  case (Cons y ys)
  show ?case
  proof (cases "compareFn x y \<le> 0")
    case True
    with Cons.prems show ?thesis by simp
  next
    case False
    then have yx: "compareFn y x \<le> 0" using compareFn_flip [of x y] by simp
    from Cons have ih: "successively (\<lambda>a b. compareFn a b \<le> 0) (insertJob x ys)"
      by (cases ys) (auto simp: successively_Cons)
    show ?thesis
    proof (cases ys)
      case Nil
      with False yx show ?thesis by simp
    next
      case (Cons z zs)
      with False yx ih Cons.prems show ?thesis by (auto simp: successively_Cons)
    qed
  qed
qed

lemma successively_sortQueue: "successively (\<lambda>a b. compareFn a b \<le> 0) (sortQueue xs)"
  by (induction xs) (simp_all add: successively_insertJob)

lemma sortQueue_idem: "sortQueue (sortQueue xs) = sortQueue xs"
  by (rule sortQueue_fixed [OF successively_sortQueue])

lemma valid_rank: "validPriority j \<Longrightarrow> \<exists>n. priorityOrder (priority j) = Some n"
  by (auto simp: validPriority_def priorityOrder_def)

lemma compareFn_trans:
  "validPriority a \<Longrightarrow> validPriority b \<Longrightarrow> validPriority c \<Longrightarrow>
   compareFn a b \<le> 0 \<Longrightarrow> compareFn b c \<le> 0 \<Longrightarrow> compareFn a c \<le> 0"
  using valid_rank [of a] valid_rank [of b] valid_rank [of c]
  by (auto simp: compareFn_def)

lemma sorted_insertJob:
  "validPriority x \<Longrightarrow> list_all validPriority ys \<Longrightarrow>
   sorted_wrt (\<lambda>a b. compareFn a b \<le> 0) ys \<Longrightarrow>
   sorted_wrt (\<lambda>a b. compareFn a b \<le> 0) (insertJob x ys)"
proof (induction ys)
  case Nil
  show ?case by simp
next
  case (Cons y ys)
  show ?case
  proof (cases "compareFn x y \<le> 0")
    case True
    have "compareFn x z \<le> 0" if "z \<in> set ys" for z
      using that True Cons.prems compareFn_trans [of x y z]
      by (auto simp: list_all_iff)
    with True Cons.prems show ?thesis by auto
  next
    case False
    then have "compareFn y x \<le> 0" using compareFn_flip [of x y] by simp
    with False Cons show ?thesis by (auto simp: set_insertJob)
  qed
qed

lemma sorted_sortQueue:
  "list_all validPriority xs \<Longrightarrow> sorted_wrt (\<lambda>a b. compareFn a b \<le> 0) (sortQueue xs)"
  by (induction xs) (auto simp: sorted_insertJob list_all_iff set_sortQueue)

subsection \<open>The state invariant\<close>

lemma wf_constructor: "wf constructor"
  by (simp add: wf_def constructor_def)

lemma wf_addJob: "wf s \<Longrightarrow> wf (snd (addJob sp jid now s))"
  by (cases "queue s"; cases "awaiting s")
     (auto simp: wf_def addJob_def processNext_def dispatchLoop_def makeJob_def pendingJob_def Let_def)

lemma wf_settle: "wf s \<Longrightarrow> wf (settle i outcome now s)"
  by (cases "queue s"; cases "awaiting s")
     (auto simp: wf_def settle_def dispatchLoop_def Let_def pendingJob_def)

lemma set_take_drop: "set (take i xs @ drop (Suc i) xs) \<subseteq> set xs"
  by (metis set_append set_drop_subset set_take_subset le_sup_iff)

lemma wf_removeJob: "wf s \<Longrightarrow> wf (snd (removeJob jid s))"
  using set_take_drop[of _ "queue s"]
  by (auto simp: wf_def removeJob_def list_all_iff split: option.splits)

lemma wf_clearQueue: "wf s \<Longrightarrow> wf (snd (clearQueue s))"
  by (auto simp: wf_def clearQueue_def Let_def)

lemma wf_step: "wf s \<Longrightarrow> wf (step e s)"
  by (cases e) (auto simp: wf_addJob wf_settle wf_removeJob wf_clearQueue, simp add: wf_def)

lemma wf_run: "wf s \<Longrightarrow> wf (run es s)"
  unfolding run_def by (induction es arbitrary: s) (auto simp: wf_step)

lemma run_snoc: "run (es @ [e]) s = step e (run es s)"
  by (simp add: run_def)

lemma wf_reached: "wf (run es constructor)"
  by (rule wf_run [OF wf_constructor])

lemma processingJobs_wf: "wf s \<Longrightarrow> processingJobs s = map sjob (awaiting s)"
proof -
  assume w: "wf s"
  have q: "filter (\<lambda>j. status j = ''processing'') (queue s) = []"
    using w by (auto simp: wf_def list_all_iff pendingJob_def filter_empty_conv)
  have a: "filter (\<lambda>j. status j = ''processing'') (map sjob (awaiting s)) = map sjob (awaiting s)"
    using w by (auto simp: wf_def list_all_iff filter_id_conv)
  show ?thesis by (simp add: processingJobs_def q a)
qed

subsection \<open>Traces\<close>

lemma added_append: "added (t @ u) = added t @ added u"
  by (induction t rule: added.induct) auto

lemma started_append: "started (t @ u) = started t @ started u"
  by (induction t rule: started.induct) auto

lemma finished_append: "finished (t @ u) = finished t @ finished u"
  by (induction t rule: finished.induct) auto

lemma subseq_take_drop: "subseq (take i xs @ drop (Suc i) xs) xs"
proof -
  have "subseq (take i xs @ drop (Suc i) xs) (take i xs @ drop i xs)"
    by (intro list_emb_append_mono subseq_order.refl suffix_imp_subseq)
       (metis Suc_eq_plus1 add.commute drop_drop suffix_drop)
  then show ?thesis by simp
qed

lemma subseq_snoc3: "subseq (a @ b) c \<Longrightarrow> subseq (a @ b @ [x]) (c @ [x])"
  using list_emb_append_mono [of "(=)" "a @ b" c "[x]" "[x]"] by simp

lemma fifo_addJob:
  "wf s \<Longrightarrow> subseq (started (trace s) @ queue s) (added (trace s)) \<Longrightarrow>
   subseq (started (trace (snd (addJob sp jid now s))) @ queue (snd (addJob sp jid now s)))
          (added (trace (snd (addJob sp jid now s))))"
  by (cases "awaiting s")
     (auto simp: wf_def addJob_def processNext_def dispatchLoop_def Let_def
        added_append started_append subseq_snoc3 split: sum.splits)

lemma fifo_settle:
  "wf s \<Longrightarrow> subseq (started (trace s) @ queue s) (added (trace s)) \<Longrightarrow>
   subseq (started (trace (settle i outcome now s)) @ queue (settle i outcome now s))
          (added (trace (settle i outcome now s)))"
  by (cases "queue s"; cases "awaiting s")
     (auto simp: wf_def settle_def dispatchLoop_def Let_def
        added_append started_append split: sum.splits)

lemma fifo_removeJob:
  "subseq (started (trace s) @ queue s) (added (trace s)) \<Longrightarrow>
   subseq (started (trace (snd (removeJob jid s))) @ queue (snd (removeJob jid s)))
          (added (trace (snd (removeJob jid s))))"
proof (cases "findIndex (\<lambda>j. job_id j = jid) (queue s)")
  case None
  then show "subseq (started (trace s) @ queue s) (added (trace s)) \<Longrightarrow> ?thesis" by (simp add: removeJob_def)
next
  case (Some i)
  assume a: "subseq (started (trace s) @ queue s) (added (trace s))"
  have "subseq (started (trace s) @ take i (queue s) @ drop (Suc i) (queue s)) (started (trace s) @ queue s)"
    by (intro list_emb_append_mono subseq_order.refl subseq_take_drop)
  from this a have "subseq (started (trace s) @ take i (queue s) @ drop (Suc i) (queue s)) (added (trace s))"
    by (rule subseq_order.trans)
  with Some show ?thesis by (simp add: removeJob_def added_append started_append)
qed

lemma fifo_clearQueue:
  "subseq (started (trace s) @ queue s) (added (trace s)) \<Longrightarrow>
   subseq (started (trace (snd (clearQueue s))) @ queue (snd (clearQueue s)))
          (added (trace (snd (clearQueue s))))"
proof -
  assume a: "subseq (started (trace s) @ queue s) (added (trace s))"
  have "subseq (started (trace s)) (started (trace s) @ queue s)"
    by (rule prefix_imp_subseq) simp
  from this a have "subseq (started (trace s)) (added (trace s))"
    by (rule subseq_order.trans)
  then show ?thesis by (simp add: clearQueue_def Let_def added_append started_append)
qed

lemma count_step:
  "wf s \<Longrightarrow> length (started (trace s)) = length (finished (trace s)) + length (awaiting s) \<Longrightarrow>
   length (started (trace (step e s))) =
     length (finished (trace (step e s))) + length (awaiting (step e s))"
  by (cases e; cases "queue s"; cases "awaiting s")
     (auto simp: wf_def addJob_def processNext_def settle_def dispatchLoop_def Let_def
        removeJob_def clearQueue_def started_append finished_append
        split: sum.splits option.splits)

lemma fifo_step:
  "wf s \<Longrightarrow> subseq (started (trace s) @ queue s) (added (trace s)) \<Longrightarrow>
   subseq (started (trace (step e s)) @ queue (step e s)) (added (trace (step e s)))"
  by (cases e) (auto simp: fifo_addJob fifo_settle fifo_removeJob fifo_clearQueue, simp add: wf_def)

lemma fifo_run:
  "subseq (started (trace (run es constructor)) @ queue (run es constructor))
          (added (trace (run es constructor)))"
proof (induction es rule: rev_induct)
  case Nil
  show ?case by (simp add: run_def constructor_def)
next
  case (snoc e es)
  from fifo_step [OF wf_reached snoc] show ?case by (simp add: run_snoc)
qed

lemma count_run:
  "length (started (trace (run es constructor))) =
     length (finished (trace (run es constructor))) + length (awaiting (run es constructor))"
proof (induction es rule: rev_induct)
  case Nil
  show ?case by (simp add: run_def constructor_def)
next
  case (snoc e es)
  from count_step [OF wf_reached snoc] show ?case by (simp add: run_snoc)
qed

subsection \<open>Identifiers\<close>

lemma submitted_append: "submitted (es @ fs) = submitted es @ submitted fs"
  by (induction es rule: submitted.induct) auto

lemma findIndex_None: "findIndex P xs = None \<longleftrightarrow> (\<forall>x\<in>set xs. \<not> P x)"
  by (induction xs) auto

lemma findIndex_Some: "findIndex P xs = Some i \<Longrightarrow> i < length xs \<and> P (xs ! i)"
proof (induction xs arbitrary: i)
  case Nil
  then show ?case by simp
next
  case (Cons x xs)
  then show ?case by (cases "P x") auto
qed

lemma distinct_map_take_drop:
  "distinct (map f xs) \<Longrightarrow> distinct (map f (take i xs @ drop (Suc i) xs))"
proof (induction xs arbitrary: i)
  case Nil
  show ?case by simp
next
  case (Cons x xs)
  show ?case
  proof (cases i)
    case 0
    with Cons.prems show ?thesis by simp
  next
    case (Suc n)
    have "set (take n xs @ drop (Suc n) xs) \<subseteq> set xs" by (rule set_take_drop)
    then have "f ` set (take n xs @ drop (Suc n) xs) \<subseteq> f ` set xs" by (rule image_mono)
    with Cons Suc show ?thesis by auto
  qed
qed

lemma ids_addJob:
  "wf s \<Longrightarrow> jid \<notin> set (knownIds s) \<Longrightarrow> distinct (knownIds s) \<Longrightarrow>
   distinct (knownIds (snd (addJob sp jid now s))) \<and>
   set (knownIds (snd (addJob sp jid now s))) = insert jid (set (knownIds s))"
  by (cases "awaiting s")
     (auto simp: wf_def knownIds_def addJob_def processNext_def dispatchLoop_def Let_def
        makeJob_def finished_append split: sum.splits)

lemma ids_settle:
  "wf s \<Longrightarrow> distinct (knownIds s) \<Longrightarrow>
   distinct (knownIds (settle i outcome now s)) \<and>
   set (knownIds (settle i outcome now s)) = set (knownIds s)"
  by (cases "queue s"; cases "awaiting s")
     (auto simp: wf_def knownIds_def settle_def dispatchLoop_def Let_def
        finished_append split: sum.splits)

lemma ids_removeJob:
  "distinct (knownIds s) \<Longrightarrow>
   distinct (knownIds (snd (removeJob jid s))) \<and>
   set (knownIds (snd (removeJob jid s))) \<subseteq> set (knownIds s)"
proof (cases "findIndex (\<lambda>j. job_id j = jid) (queue s)")
  case None
  then show "distinct (knownIds s) \<Longrightarrow> ?thesis" by (simp add: removeJob_def)
next
  case (Some i)
  assume d: "distinct (knownIds s)"
  define q where "q = take i (queue s) @ drop (Suc i) (queue s)"
  have sub: "set q \<subseteq> set (queue s)" unfolding q_def by (rule set_take_drop)
  have dq: "distinct (map job_id q)"
    unfolding q_def using d by (intro distinct_map_take_drop) (simp add: knownIds_def)
  have k: "knownIds (snd (removeJob jid s)) =
      map job_id q @ map (\<lambda>a. job_id (sjob a)) (awaiting s) @ map job_id (finished (trace s))"
    using Some by (simp add: removeJob_def knownIds_def finished_append q_def)
  from d dq sub show ?thesis unfolding k by (auto simp: knownIds_def; blast)
qed

lemma ids_clearQueue:
  "distinct (knownIds s) \<Longrightarrow>
   distinct (knownIds (snd (clearQueue s))) \<and>
   set (knownIds (snd (clearQueue s))) \<subseteq> set (knownIds s)"
  by (auto simp: knownIds_def clearQueue_def Let_def finished_append)

lemma ids_run:
  "distinct (submitted es) \<Longrightarrow>
   distinct (knownIds (run es constructor)) \<and>
   set (knownIds (run es constructor)) \<subseteq> set (submitted es)"
proof (induction es rule: rev_induct)
  case Nil
  show ?case by (simp add: run_def constructor_def knownIds_def)
next
  case (snoc e es)
  let ?s = "run es constructor"
  have w: "wf ?s" by (rule wf_reached)
  from snoc.prems have d: "distinct (submitted es)" by (simp add: submitted_append)
  with snoc.IH have ih: "distinct (knownIds ?s)" "set (knownIds ?s) \<subseteq> set (submitted es)"
    by simp_all
  show ?case
  proof (cases e)
    case (AddJob sp jid now)
    with snoc.prems have "jid \<notin> set (submitted es)" by (simp add: submitted_append)
    with ih have "jid \<notin> set (knownIds ?s)" by auto
    from ids_addJob [OF w this ih(1)] ih(2) AddJob show ?thesis
      by (auto simp: run_snoc submitted_append)
  next
    case (Settle i outcome now)
    with ids_settle [OF w ih(1)] ih(2) show ?thesis
      by (auto simp: run_snoc submitted_append)
  next
    case (Immediate now)
    with w ih show ?thesis by (auto simp: run_snoc submitted_append wf_def)
  next
    case (RemoveJob jid)
    with ids_removeJob [OF ih(1)] ih(2) show ?thesis
      by (auto simp: run_snoc submitted_append)
  next
    case ClearQueue
    with ids_clearQueue [OF ih(1)] ih(2) show ?thesis
      by (auto simp: run_snoc submitted_append)
  qed
qed


subsection \<open>The concurrency ceiling\<close>

text \<open>
  C4. After any sequence of events on a fresh queue, the number of jobs whose status is
  \<^verbatim>\<open>'processing'\<close> is at most \<open>maxConcurrent\<close>, and so is the counter \<open>activeJobs\<close> that
  \<^verbatim>\<open>getQueueStatus\<close> reports as \<^verbatim>\<open>processing\<close>.
\<close>

theorem processing_within_ceiling:
  "length (processingJobs (run es constructor)) \<le> maxConcurrent (run es constructor) \<and>
   activeJobs (run es constructor) \<le> int (maxConcurrent (run es constructor)) \<and>
   qs_processing (getQueueStatus (run es constructor))
     \<le> int (qs_maxConcurrent (getQueueStatus (run es constructor)))"
proof -
  have w: "wf (run es constructor)" by (rule wf_reached)
  have "length (processingJobs (run es constructor)) = length (awaiting (run es constructor))"
    by (simp add: processingJobs_wf [OF w])
  with w show ?thesis by (simp add: wf_def getQueueStatus_def)
qed

text \<open>
  C10. After any sequence of events on a fresh queue at most one job is executing: the
  counter \<open>activeJobs\<close> is at most 1, at most one run of \<^verbatim>\<open>processNext\<close> is suspended
  at its \<^verbatim>\<open>await\<close>, every job but possibly the last one started has finished before the
  next one started, the \<open>processing\<close> flag is set exactly while a run is suspended, a call of
  \<^verbatim>\<open>processNext\<close> with the flag set does nothing, and all this with \<open>maxConcurrent = 2\<close>.
\<close>

theorem sequential_execution:
  "activeJobs (run es constructor) \<le> 1 \<and>
   length (awaiting (run es constructor)) \<le> 1 \<and>
   length (started (trace (run es constructor)))
     \<le> Suc (length (finished (trace (run es constructor)))) \<and>
   processing (run es constructor) = (awaiting (run es constructor) \<noteq> []) \<and>
   processNext now ((run es constructor)\<lparr>processing := True\<rparr>)
     = (run es constructor)\<lparr>processing := True\<rparr> \<and>
   maxConcurrent (run es constructor) = 2"
proof -
  have w: "wf (run es constructor)" by (rule wf_reached)
  have c: "length (started (trace (run es constructor))) =
      length (finished (trace (run es constructor))) + length (awaiting (run es constructor))"
    by (rule count_run)
  from w c show ?thesis by (simp add: wf_def processNext_def)
qed

subsection \<open>Evaluating sample runs\<close>

lemmas eval_simps = run_def addJob_def processNext_def dispatchLoop_def settle_def makeJob_def
  exampleSpec_def constructor_def executeJob_def processImageJob_def processDocumentJob_def
  processMediaJob_def processingJobs_def Let_def removeJob_def clearQueue_def getJobStatus_def
  compareFn_def priorityOrder_def

text \<open>
  C1. Three submissions with the ceiling at 2: after the third one, a single job has the
  status \<^verbatim>\<open>'processing'\<close> and two are pending, where the claim has two processing and
  one pending.
\<close>

theorem three_submissions_one_processing:
  "length (processingJobs (run threeSubmissions constructor)) = 1 \<and>
   activeJobs (run threeSubmissions constructor) = 1 \<and>
   map job_id (queue (run threeSubmissions constructor)) = [''job_2'', ''job_3''] \<and>
   maxConcurrent (run threeSubmissions constructor) = 2"
  by (simp add: threeSubmissions_def eval_simps)

subsection \<open>Priorities\<close>

text \<open>
  C3. A normal job is running, a low and then a high job are submitted and both pending;
  when the running job completes, the low job is started and the high job is still in the
  queue, where the claim has the high job dispatched first.
\<close>

theorem low_dispatched_before_pending_high:
  "map (\<lambda>j. (job_id j, priority j)) (started (trace (run priorityScenario constructor)))
     = [(''job_a'', ''normal''), (''job_b'', ''low'')] \<and>
   map (\<lambda>j. (job_id j, priority j)) (queue (run priorityScenario constructor))
     = [(''job_c'', ''high'')]"
  by (simp add: priorityScenario_def eval_simps)

lemma removed_append: "removed (t @ u) = removed t @ removed u"
  by (induction t rule: removed.induct) auto

lemma cleared_append: "cleared (t @ u) = cleared t + cleared u"
  by (induction t rule: cleared.induct) auto

lemma account_step:
  "wf s \<Longrightarrow>
   length (added (trace s)) =
     length (started (trace s)) + length (queue s) + length (removed (trace s)) + cleared (trace s) \<Longrightarrow>
   length (added (trace (step e s))) =
     length (started (trace (step e s))) + length (queue (step e s)) +
     length (removed (trace (step e s))) + cleared (trace (step e s))"
proof (cases e)
  case (AddJob sp jid now)
  assume "wf s" and "length (added (trace s)) =
     length (started (trace s)) + length (queue s) + length (removed (trace s)) + cleared (trace s)"
  with AddJob show ?thesis
    by (cases "awaiting s")
       (auto simp: wf_def addJob_def processNext_def dispatchLoop_def Let_def
          added_append started_append removed_append cleared_append split: sum.splits)
next
  case (Settle i outcome now)
  assume "wf s" and "length (added (trace s)) =
     length (started (trace s)) + length (queue s) + length (removed (trace s)) + cleared (trace s)"
  with Settle show ?thesis
    by (cases "queue s"; cases "awaiting s")
       (auto simp: wf_def settle_def dispatchLoop_def Let_def
          added_append started_append removed_append cleared_append split: sum.splits)
next
  case (Immediate now)
  assume "wf s" and "length (added (trace s)) =
     length (started (trace s)) + length (queue s) + length (removed (trace s)) + cleared (trace s)"
  with Immediate show ?thesis by (simp add: wf_def)
next
  case (RemoveJob jid)
  assume a: "length (added (trace s)) =
     length (started (trace s)) + length (queue s) + length (removed (trace s)) + cleared (trace s)"
  show ?thesis
  proof (cases "findIndex (\<lambda>j. job_id j = jid) (queue s)")
    case None
    with RemoveJob a show ?thesis by (simp add: removeJob_def)
  next
    case (Some i)
    from findIndex_Some [OF Some] have "i < length (queue s)" by simp
    then have "Suc (length (take i (queue s) @ drop (Suc i) (queue s))) = length (queue s)"
      by auto
    with RemoveJob Some a show ?thesis
      by (simp add: removeJob_def added_append started_append removed_append cleared_append)
  qed
next
  case ClearQueue
  assume "length (added (trace s)) =
     length (started (trace s)) + length (queue s) + length (removed (trace s)) + cleared (trace s)"
  with ClearQueue show ?thesis
    by (simp add: clearQueue_def Let_def added_append started_append removed_append cleared_append)
qed

lemma account_run:
  "length (added (trace (run es constructor))) =
     length (started (trace (run es constructor))) + length (queue (run es constructor)) +
     length (removed (trace (run es constructor))) + cleared (trace (run es constructor))"
proof (induction es rule: rev_induct)
  case Nil
  show ?case by (simp add: run_def constructor_def)
next
  case (snoc e es)
  from account_step [OF wf_reached snoc] show ?case by (simp add: run_snoc)
qed

text \<open>
  Where a run sorts: \<^verbatim>\<open>processNext\<close> passes its guard only with the \<open>processing\<close> flag
  clear, and then the queue is empty before \<open>addJob\<close> appends its job; no
  \<^verbatim>\<open>setImmediate\<close> callback is ever pending. So the sort is only applied to one job.
\<close>

lemma sort_meets_one_job:
  "immediates (run es constructor) = 0 \<and>
   (\<not> processing (run es constructor) \<longrightarrow>
      sortQueue (queue (run es constructor) @ [j]) = [j])"
  using wf_reached [of es] by (auto simp: wf_def)

text \<open>
  C5. In every run, the jobs of one priority that have been started, followed by those of
  that priority still pending, form a subsequence of the submitted jobs of that priority:
  no job is started while a job of its tier submitted earlier is still pending. Every
  submitted job is started, pending, removed or cleared; no job is left pending while none
  is executing; and in a run without removals the started and the pending jobs of a tier are
  exactly the submitted jobs of that tier, in the order submitted. For a queue whose
  priorities are all among low, normal and high, the sort keeps the relative order of the
  jobs of each priority (it is stable), sorting the result again changes nothing, and the
  result is ordered by the comparator: no job compares above a job before it.
\<close>

theorem fifo_within_tier:
  "subseq (filter (\<lambda>j. priority j = p) (started (trace (run es constructor))) @
           filter (\<lambda>j. priority j = p) (queue (run es constructor)))
          (filter (\<lambda>j. priority j = p) (added (trace (run es constructor)))) \<and>
   length (added (trace (run es constructor))) =
     length (started (trace (run es constructor))) + length (queue (run es constructor)) +
     length (removed (trace (run es constructor))) + cleared (trace (run es constructor)) \<and>
   (awaiting (run es constructor) = [] \<longrightarrow> queue (run es constructor) = []) \<and>
   (removed (trace (run es constructor)) = [] \<and> cleared (trace (run es constructor)) = 0 \<longrightarrow>
      filter (\<lambda>j. priority j = p) (started (trace (run es constructor))) @
      filter (\<lambda>j. priority j = p) (queue (run es constructor))
        = filter (\<lambda>j. priority j = p) (added (trace (run es constructor)))) \<and>
   (list_all validPriority q \<longrightarrow>
      filter (\<lambda>j. priority j = p) (sortQueue q) = filter (\<lambda>j. priority j = p) q \<and>
      sortQueue (sortQueue q) = sortQueue q \<and>
      sorted_wrt (\<lambda>a b. compareFn a b \<le> 0) (sortQueue q))"
proof -
  let ?s = "run es constructor"
  let ?P = "\<lambda>j. priority j = p"
  have f: "subseq (started (trace ?s) @ queue ?s) (added (trace ?s))" by (rule fifo_run)
  then have "subseq (filter ?P (started (trace ?s) @ queue ?s)) (filter ?P (added (trace ?s)))"
    by (rule subseq_filter)
  then have c1: "subseq (filter ?P (started (trace ?s)) @ filter ?P (queue ?s))
      (filter ?P (added (trace ?s)))"
    by simp
  have c2: "length (added (trace ?s)) =
     length (started (trace ?s)) + length (queue ?s) + length (removed (trace ?s)) + cleared (trace ?s)"
    by (rule account_run)
  have c3: "awaiting ?s = [] \<longrightarrow> queue ?s = []"
    using wf_reached [of es] by (auto simp: wf_def)
  have c4: "filter ?P (started (trace ?s)) @ filter ?P (queue ?s) = filter ?P (added (trace ?s))"
    if n: "removed (trace ?s) = [] \<and> cleared (trace ?s) = 0"
  proof -
    from c2 n have "length (started (trace ?s) @ queue ?s) = length (added (trace ?s))" by simp
    with f have "started (trace ?s) @ queue ?s = added (trace ?s)" by (rule subseq_same_length)
    then have "filter ?P (started (trace ?s) @ queue ?s) = filter ?P (added (trace ?s))" by simp
    then show ?thesis by simp
  qed
  have c5: "list_all validPriority q \<longrightarrow>
      filter ?P (sortQueue q) = filter ?P q \<and>
      sortQueue (sortQueue q) = sortQueue q \<and>
      sorted_wrt (\<lambda>a b. compareFn a b \<le> 0) (sortQueue q)"
    by (simp add: filter_sortQueue sortQueue_idem sorted_sortQueue)
  from c1 c2 c3 c4 c5 show ?thesis by blast
qed

theorem fifo_within_tier_witness:
  "awaiting (run singleJobDone constructor) = [] \<and>
   queue (run singleJobDone constructor) = [] \<and>
   removed (trace (run tierScenario constructor)) = [] \<and>
   cleared (trace (run tierScenario constructor)) = 0 \<and>
   filter (\<lambda>j. priority j = ''normal'') (started (trace (run tierScenario constructor))) @
   filter (\<lambda>j. priority j = ''normal'') (queue (run tierScenario constructor))
     = filter (\<lambda>j. priority j = ''normal'') (added (trace (run tierScenario constructor))) \<and>
   map job_id (started (trace (run tierScenario constructor))) = [''job_a'', ''job_b''] \<and>
   map job_id (queue (run tierScenario constructor)) = [''job_c''] \<and>
   map job_id (filter (\<lambda>j. priority j = ''normal'') (added (trace (run tierScenario constructor))))
     = [''job_a'', ''job_c''] \<and>
   list_all validPriority mixedQueue \<and>
   sorted_wrt (\<lambda>a b. compareFn a b \<le> 0) (sortQueue mixedQueue) \<and>
   sortQueue (sortQueue mixedQueue) = sortQueue mixedQueue \<and>
   map job_id (sortQueue mixedQueue) = [''job_b'', ''job_d'', ''job_c'', ''job_a'']"
proof -
  let ?s = "run tierScenario constructor"
  let ?d = "run singleJobDone constructor"
  note T = fifo_within_tier [of "''normal''" tierScenario mixedQueue]
  note D = fifo_within_tier [of "''normal''" singleJobDone mixedQueue]
  have a: "awaiting ?d = []"
    by (simp add: singleJobDone_def eval_simps)
  from D have "awaiting ?d = [] \<longrightarrow> queue ?d = []" by (elim conjE)
  from this a have q: "queue ?d = []" by (rule mp)
  have r: "removed (trace ?s) = []" and c: "cleared (trace ?s) = 0"
    by (simp_all add: tierScenario_def eval_simps)
  from T have "removed (trace ?s) = [] \<and> cleared (trace ?s) = 0 \<longrightarrow>
      filter (\<lambda>j. priority j = ''normal'') (started (trace ?s)) @
      filter (\<lambda>j. priority j = ''normal'') (queue ?s)
        = filter (\<lambda>j. priority j = ''normal'') (added (trace ?s))"
    by (elim conjE)
  from this conjI [OF r c] have e:
    "filter (\<lambda>j. priority j = ''normal'') (started (trace ?s)) @
     filter (\<lambda>j. priority j = ''normal'') (queue ?s)
       = filter (\<lambda>j. priority j = ''normal'') (added (trace ?s))"
    by (rule mp)
  have st: "map job_id (started (trace ?s)) = [''job_a'', ''job_b'']"
    and qu: "map job_id (queue ?s) = [''job_c'']"
    and ad: "map job_id (filter (\<lambda>j. priority j = ''normal'') (added (trace ?s)))
       = [''job_a'', ''job_c'']"
    by (simp_all add: tierScenario_def eval_simps)
  have v: "list_all validPriority mixedQueue"
    by (simp add: mixedQueue_def validPriority_def makeJob_def exampleSpec_def)
  from T have "list_all validPriority mixedQueue \<longrightarrow>
      filter (\<lambda>j. priority j = ''normal'') (sortQueue mixedQueue)
        = filter (\<lambda>j. priority j = ''normal'') mixedQueue \<and>
      sortQueue (sortQueue mixedQueue) = sortQueue mixedQueue \<and>
      sorted_wrt (\<lambda>a b. compareFn a b \<le> 0) (sortQueue mixedQueue)"
    by (elim conjE)
  from this v have "filter (\<lambda>j. priority j = ''normal'') (sortQueue mixedQueue)
        = filter (\<lambda>j. priority j = ''normal'') mixedQueue \<and>
      sortQueue (sortQueue mixedQueue) = sortQueue mixedQueue \<and>
      sorted_wrt (\<lambda>a b. compareFn a b \<le> 0) (sortQueue mixedQueue)"
    by (rule mp)
  note S = this
  from S have so: "sorted_wrt (\<lambda>a b. compareFn a b \<le> 0) (sortQueue mixedQueue)"
    by (elim conjE)
  from S have idem: "sortQueue (sortQueue mixedQueue) = sortQueue mixedQueue"
    by (elim conjE)
  have m: "map job_id (sortQueue mixedQueue) = [''job_b'', ''job_d'', ''job_c'', ''job_a'']"
    by (simp add: mixedQueue_def makeJob_def exampleSpec_def compareFn_def priorityOrder_def)
  from a q r c e st qu ad v so idem m show ?thesis by (intro conjI)
qed

subsection \<open>The dispatcher\<close>

lemma calls_append: "calls (t @ u) = calls t @ calls u"
  by (induction t rule: calls.induct) auto

lemma executeJob_unsupported:
  "\<not> supported (jtype j) (operation j) \<Longrightarrow>
   executeJob j = Inl (unsupportedMessage (jtype j) (operation j))"
  by (auto simp: supported_def executeJob_def processImageJob_def processDocumentJob_def
      processMediaJob_def unsupportedMessage_def)

lemma executeJob_fields:
  "executeJob (j\<lparr>status := st, startedAt := t\<rparr>) = executeJob j"
  by (simp add: executeJob_def)

lemma finished_dispatchLoop: "finished (trace (dispatchLoop now s)) = finished (trace s)"
  by (auto simp: dispatchLoop_def Let_def finished_append split: list.splits sum.splits)

lemma settle_rejected:
  "i < length (awaiting s) \<Longrightarrow> promise (awaiting s ! i) = Inl m \<Longrightarrow>
   finished (trace (settle i outcome t s)) =
     finished (trace s) @
       [(sjob (awaiting s ! i))\<lparr>status := ''failed'', failedAt := Some t, error := Some m\<rparr>]"
  by (simp add: settle_def Let_def finished_dispatchLoop finished_append)

lemma awaiting_promise:
  "i < length (awaiting (run fs constructor)) \<Longrightarrow>
   promise (awaiting (run fs constructor) ! i) = executeJob (sjob (awaiting (run fs constructor) ! i))"
  using wf_reached [of fs] by (simp add: wf_def list_all_length)

text \<open>
  C6. For a category and operation without a case in the dispatcher, \<open>executeJob\<close> raises
  the error naming the pair and calls no routine of the processor (its result is \<open>Inl\<close>).
  In every run, an awaited job with such a pair has status \<^verbatim>\<open>'processing'\<close>, its promise is
  rejected with that message, and when it settles the job is reported failed with the
  message, whatever the processor would have answered. Submitted to an idle queue, the job
  is created \<^verbatim>\<open>'queued'\<close>, started at once without a call of the processor, and failed
  by the next settling.
\<close>

theorem unsupported_combination_fails:
  "(\<not> supported (jtype j) (operation j) \<longrightarrow>
      executeJob j = Inl (unsupportedMessage (jtype j) (operation j))) \<and>
   (i < length (awaiting (run fs constructor)) \<and>
    \<not> supported (jtype (sjob (awaiting (run fs constructor) ! i)))
                 (operation (sjob (awaiting (run fs constructor) ! i))) \<longrightarrow>
      promise (awaiting (run fs constructor) ! i) =
        Inl (unsupportedMessage (jtype (sjob (awaiting (run fs constructor) ! i)))
                                (operation (sjob (awaiting (run fs constructor) ! i)))) \<and>
      status (sjob (awaiting (run fs constructor) ! i)) = ''processing'' \<and>
      finished (trace (run (fs @ [Settle i outcome t]) constructor)) =
        finished (trace (run fs constructor)) @
          [(sjob (awaiting (run fs constructor) ! i))
             \<lparr>status := ''failed'', failedAt := Some t,
              error := Some (unsupportedMessage
                               (jtype (sjob (awaiting (run fs constructor) ! i)))
                               (operation (sjob (awaiting (run fs constructor) ! i))))\<rparr>]) \<and>
   (\<not> supported (spec_type sp) (spec_operation sp) \<and> \<not> processing (run es constructor) \<longrightarrow>
      status (makeJob sp jid now) = ''queued'' \<and>
      trace (run (es @ [AddJob sp jid now]) constructor) =
        trace (run es constructor) @
          [JobAdded (makeJob sp jid now), JobStarting (makeJob sp jid now)] \<and>
      map sjob (awaiting (run (es @ [AddJob sp jid now]) constructor)) =
        [(makeJob sp jid now)\<lparr>status := ''processing'', startedAt := Some now\<rparr>] \<and>
      trace (run (es @ [AddJob sp jid now, Settle 0 outcome t]) constructor) =
        trace (run (es @ [AddJob sp jid now]) constructor) @
          [JobFailed ((makeJob sp jid now)
             \<lparr>status := ''failed'', startedAt := Some now, failedAt := Some t,
              error := Some (unsupportedMessage (spec_type sp) (spec_operation sp))\<rparr>)] \<and>
      awaiting (run (es @ [AddJob sp jid now, Settle 0 outcome t]) constructor) = [])"
proof -
  have a: "\<not> supported (jtype j) (operation j) \<longrightarrow>
      executeJob j = Inl (unsupportedMessage (jtype j) (operation j))"
    by (simp add: executeJob_unsupported)
  have c: "promise (awaiting (run fs constructor) ! i) =
        Inl (unsupportedMessage (jtype (sjob (awaiting (run fs constructor) ! i)))
                                (operation (sjob (awaiting (run fs constructor) ! i)))) \<and>
      status (sjob (awaiting (run fs constructor) ! i)) = ''processing'' \<and>
      finished (trace (run (fs @ [Settle i outcome t]) constructor)) =
        finished (trace (run fs constructor)) @
          [(sjob (awaiting (run fs constructor) ! i))
             \<lparr>status := ''failed'', failedAt := Some t,
              error := Some (unsupportedMessage
                               (jtype (sjob (awaiting (run fs constructor) ! i)))
                               (operation (sjob (awaiting (run fs constructor) ! i))))\<rparr>]"
    if i: "i < length (awaiting (run fs constructor))"
      and u: "\<not> supported (jtype (sjob (awaiting (run fs constructor) ! i)))
                 (operation (sjob (awaiting (run fs constructor) ! i)))"
  proof -
    have p: "promise (awaiting (run fs constructor) ! i) =
        Inl (unsupportedMessage (jtype (sjob (awaiting (run fs constructor) ! i)))
                                (operation (sjob (awaiting (run fs constructor) ! i))))"
      using awaiting_promise [OF i] executeJob_unsupported [OF u] by simp
    have st: "status (sjob (awaiting (run fs constructor) ! i)) = ''processing''"
      using wf_reached [of fs] i by (simp add: wf_def list_all_length)
    from p st settle_rejected [OF i p] show ?thesis by (simp add: run_snoc)
  qed
  have d: "status (makeJob sp jid now) = ''queued'' \<and>
      trace (run (es @ [AddJob sp jid now]) constructor) =
        trace (run es constructor) @
          [JobAdded (makeJob sp jid now), JobStarting (makeJob sp jid now)] \<and>
      map sjob (awaiting (run (es @ [AddJob sp jid now]) constructor)) =
        [(makeJob sp jid now)\<lparr>status := ''processing'', startedAt := Some now\<rparr>] \<and>
      trace (run (es @ [AddJob sp jid now, Settle 0 outcome t]) constructor) =
        trace (run (es @ [AddJob sp jid now]) constructor) @
          [JobFailed ((makeJob sp jid now)
             \<lparr>status := ''failed'', startedAt := Some now, failedAt := Some t,
              error := Some (unsupportedMessage (spec_type sp) (spec_operation sp))\<rparr>)] \<and>
      awaiting (run (es @ [AddJob sp jid now, Settle 0 outcome t]) constructor) = []"
    if u: "\<not> supported (spec_type sp) (spec_operation sp)"
      and idle: "\<not> processing (run es constructor)"
  proof -
    let ?s = "run es constructor"
    let ?j = "makeJob sp jid now"
    have w: "wf ?s" by (rule wf_reached)
    from w idle have q: "queue ?s = []" and aw: "awaiting ?s = []"
      and ac: "activeJobs ?s = 0" and mc: "maxConcurrent ?s = 2"
      by (auto simp: wf_def)
    have ty: "jtype ?j = spec_type sp" "operation ?j = spec_operation sp"
      by (simp_all add: makeJob_def)
    from u have ex: "executeJob (?j\<lparr>status := ''processing'', startedAt := Some now\<rparr>)
        = Inl (unsupportedMessage (spec_type sp) (spec_operation sp))"
      using executeJob_unsupported [of ?j] by (simp add: executeJob_fields ty)
    have s1: "run (es @ [AddJob sp jid now]) constructor =
        ?s\<lparr>processing := True, queue := [], activeJobs := 1,
           trace := trace ?s @ [JobAdded ?j, JobStarting ?j],
           awaiting := [\<lparr>sjob = ?j\<lparr>status := ''processing'', startedAt := Some now\<rparr>,
                         promise = Inl (unsupportedMessage (spec_type sp) (spec_operation sp))\<rparr>]\<rparr>"
      using idle q aw ac mc ex
      by (simp add: run_snoc addJob_def processNext_def dispatchLoop_def Let_def)
    have two: "es @ [AddJob sp jid now, Settle 0 outcome t] = (es @ [AddJob sp jid now]) @ [Settle 0 outcome t]"
      by simp
    have st: "status ?j = ''queued''" by (simp add: makeJob_def)
    show ?thesis
      unfolding two run_snoc [of "es @ [AddJob sp jid now]"] s1
      using st by (simp add: settle_def dispatchLoop_def Let_def)
  qed
  from a c d show ?thesis by blast
qed

theorem unsupported_combination_fails_witness:
  "\<not> supported (jtype (makeJob docResize ''job_x'' 5)) (operation (makeJob docResize ''job_x'' 5)) \<and>
   executeJob (makeJob docResize ''job_x'' 5) = Inl ''Unsupported document operation: resize'' \<and>
   0 < length (awaiting (run [AddJob docResize ''job_x'' 5] constructor)) \<and>
   promise (awaiting (run [AddJob docResize ''job_x'' 5] constructor) ! 0)
     = Inl ''Unsupported document operation: resize'' \<and>
   \<not> supported (spec_type docResize) (spec_operation docResize) \<and>
   \<not> processing (run [] constructor) \<and>
   trace (run ([] @ [AddJob docResize ''job_x'' 5, Settle 0 (Inr ''ignored'') 6]) constructor) =
     trace (run ([] @ [AddJob docResize ''job_x'' 5]) constructor) @
       [JobFailed ((makeJob docResize ''job_x'' 5)
          \<lparr>status := ''failed'', startedAt := Some 5, failedAt := Some 6,
           error := Some ''Unsupported document operation: resize''\<rparr>)] \<and>
   calls (trace (run [AddJob docResize ''job_x'' 5, Settle 0 (Inr ''ignored'') 6] constructor)) = []"
proof -
  let ?j = "makeJob docResize ''job_x'' 5"
  let ?s1 = "run [AddJob docResize ''job_x'' 5] constructor"
  note T = unsupported_combination_fails
    [of ?j 0 "[AddJob docResize ''job_x'' 5]" "Inr ''ignored''" 6 docResize "[]" "''job_x''" 5]
  have ty: "jtype ?j = ''document''" "operation ?j = ''resize''"
    "spec_type docResize = ''document''" "spec_operation docResize = ''resize''"
    by (simp_all add: makeJob_def docResize_def exampleSpec_def)
  have msg: "unsupportedMessage ''document'' ''resize'' = ''Unsupported document operation: resize''"
    by (simp add: unsupportedMessage_def)
  have h1: "\<not> supported (jtype ?j) (operation ?j)" by (simp add: ty supported_def)
  have h2: "0 < length (awaiting ?s1)" by (simp add: docResize_def eval_simps)
  have h3: "\<not> supported (jtype (sjob (awaiting ?s1 ! 0))) (operation (sjob (awaiting ?s1 ! 0)))"
    by (simp add: docResize_def eval_simps supported_def)
  have h4: "\<not> supported (spec_type docResize) (spec_operation docResize)"
    by (simp add: ty supported_def)
  have h5: "\<not> processing (run [] constructor)" by (simp add: run_def constructor_def)
  from T h1 have c1: "executeJob ?j = Inl (unsupportedMessage (jtype ?j) (operation ?j))"
    by blast
  from T h2 h3 have c2: "promise (awaiting ?s1 ! 0) =
      Inl (unsupportedMessage (jtype (sjob (awaiting ?s1 ! 0))) (operation (sjob (awaiting ?s1 ! 0))))"
    by blast
  from T h4 h5 have c3:
    "trace (run ([] @ [AddJob docResize ''job_x'' 5, Settle 0 (Inr ''ignored'') 6]) constructor) =
     trace (run ([] @ [AddJob docResize ''job_x'' 5]) constructor) @
       [JobFailed (?j\<lparr>status := ''failed'', startedAt := Some 5, failedAt := Some 6,
           error := Some (unsupportedMessage (spec_type docResize) (spec_operation docResize))\<rparr>)]"
    by blast
  have ty2: "jtype (sjob (awaiting ?s1 ! 0)) = ''document''"
    "operation (sjob (awaiting ?s1 ! 0)) = ''resize''"
    by (simp_all add: docResize_def eval_simps)
  have c4: "calls (trace (run [AddJob docResize ''job_x'' 5, Settle 0 (Inr ''ignored'') 6] constructor)) = []"
    by (simp add: docResize_def eval_simps)
  from c1 have c1': "executeJob ?j = Inl ''Unsupported document operation: resize''"
    by (simp only: ty msg)
  from c2 have c2': "promise (awaiting ?s1 ! 0) = Inl ''Unsupported document operation: resize''"
    by (simp only: ty2 msg)
  from c3 have c3': "trace (run ([] @ [AddJob docResize ''job_x'' 5, Settle 0 (Inr ''ignored'') 6]) constructor) =
     trace (run ([] @ [AddJob docResize ''job_x'' 5]) constructor) @
       [JobFailed (?j\<lparr>status := ''failed'', startedAt := Some 5, failedAt := Some 6,
           error := Some ''Unsupported document operation: resize''\<rparr>)]"
    by (simp only: ty msg)
  from h1 c1' h2 c2' h4 h5 c3' c4 show ?thesis by (intro conjI)
qed

subsection \<open>Removing and clearing\<close>

lemma distinct_map_nth_notin:
  "distinct (map f xs) \<Longrightarrow> i < length xs \<Longrightarrow>
   f (xs ! i) \<notin> f ` set (take i xs @ drop (Suc i) xs)"
proof (induction xs arbitrary: i)
  case Nil
  then show ?case by simp
next
  case (Cons x xs)
  show ?case
  proof (cases i)
    case 0
    with Cons.prems show ?thesis by auto
  next
    case (Suc n)
    with Cons.prems have n: "n < length xs" by simp
    from Cons.prems have dx: "distinct (map f xs)" and fx: "f x \<notin> f ` set xs" by auto
    from n have "xs ! n \<in> set xs" by simp
    with fx have ne: "f (xs ! n) \<noteq> f x" by (metis imageI)
    from Cons.IH [OF dx n] ne Suc show ?thesis by auto
  qed
qed

lemma removeJob_None:
  "jid \<notin> job_id ` set (queue s) \<Longrightarrow> removeJob jid s = (None, s)"
proof -
  assume "jid \<notin> job_id ` set (queue s)"
  then have "findIndex (\<lambda>j. job_id j = jid) (queue s) = None"
    by (auto simp: findIndex_None)
  then show ?thesis by (simp add: removeJob_def)
qed

lemma removeJob_Some:
  "jid \<in> job_id ` set (queue s) \<Longrightarrow>
   \<exists>i. findIndex (\<lambda>j. job_id j = jid) (queue s) = Some i \<and> i < length (queue s) \<and>
       job_id (queue s ! i) = jid \<and>
       removeJob jid s =
         (Some (queue s ! i),
          s\<lparr>queue := take i (queue s) @ drop (Suc i) (queue s),
            trace := trace s @ [JobRemoved (queue s ! i)]\<rparr>)"
proof -
  assume "jid \<in> job_id ` set (queue s)"
  then have "findIndex (\<lambda>j. job_id j = jid) (queue s) \<noteq> None"
    by (auto simp: findIndex_None)
  then obtain i where i: "findIndex (\<lambda>j. job_id j = jid) (queue s) = Some i" by auto
  from findIndex_Some [OF i] i show ?thesis by (simp add: removeJob_def)
qed

lemma removeJob_frame:
  "activeJobs (snd (removeJob jid s)) = activeJobs s \<and>
   awaiting (snd (removeJob jid s)) = awaiting s \<and>
   processing (snd (removeJob jid s)) = processing s \<and>
   maxConcurrent (snd (removeJob jid s)) = maxConcurrent s"
  by (simp add: removeJob_def split: option.splits)

text \<open>
  C7. In a run whose submissions carry distinct identifiers, \<open>removeJob\<close> returns a job
  exactly when a pending job has the identifier asked for; the job returned is that pending
  job, still \<^verbatim>\<open>'queued'\<close> and never started, and it is gone from the queue afterwards.
  The counter \<open>activeJobs\<close>, the suspended runs and the \<open>processing\<close> flag are never touched.
  Asked for a job that is executing, that has completed or failed, or for an identifier
  never handed out, it returns nothing and leaves the whole state as it was.
\<close>

theorem removeJob_pending_only:
  "distinct (submitted es) \<longrightarrow>
   ((\<exists>j. fst (removeJob jid (run es constructor)) = Some j)
      = (jid \<in> job_id ` set (queue (run es constructor)))) \<and>
   (\<forall>j. fst (removeJob jid (run es constructor)) = Some j \<longrightarrow>
      j \<in> set (queue (run es constructor)) \<and> job_id j = jid \<and> pendingJob j \<and>
      jid \<notin> job_id ` set (queue (snd (removeJob jid (run es constructor)))) \<and>
      Suc (length (queue (snd (removeJob jid (run es constructor)))))
        = length (queue (run es constructor))) \<and>
   activeJobs (snd (removeJob jid (run es constructor))) = activeJobs (run es constructor) \<and>
   awaiting (snd (removeJob jid (run es constructor))) = awaiting (run es constructor) \<and>
   processing (snd (removeJob jid (run es constructor))) = processing (run es constructor) \<and>
   (jid \<in> (\<lambda>a. job_id (sjob a)) ` set (awaiting (run es constructor)) \<or>
    jid \<in> job_id ` set (finished (trace (run es constructor))) \<or>
    jid \<notin> set (submitted es) \<longrightarrow>
      removeJob jid (run es constructor) = (None, run es constructor))"
proof
  let ?s = "run es constructor"
  assume d: "distinct (submitted es)"
  have w: "wf ?s" by (rule wf_reached)
  from ids_run [OF d] have dk: "distinct (knownIds ?s)"
    and sk: "set (knownIds ?s) \<subseteq> set (submitted es)" by simp_all
  from dk have dq: "distinct (map job_id (queue ?s))" by (simp add: knownIds_def)
  have iff: "(\<exists>j. fst (removeJob jid ?s) = Some j) = (jid \<in> job_id ` set (queue ?s))"
  proof (cases "jid \<in> job_id ` set (queue ?s)")
    case True
    from removeJob_Some [OF True] show ?thesis using True by auto
  next
    case False
    from removeJob_None [OF False] show ?thesis using False by simp
  qed
  have some: "j \<in> set (queue ?s) \<and> job_id j = jid \<and> pendingJob j \<and>
      jid \<notin> job_id ` set (queue (snd (removeJob jid ?s))) \<and>
      Suc (length (queue (snd (removeJob jid ?s)))) = length (queue ?s)"
    if r: "fst (removeJob jid ?s) = Some j" for j
  proof -
    from r iff have "jid \<in> job_id ` set (queue ?s)" by blast
    from removeJob_Some [OF this] obtain i where
      i: "i < length (queue ?s)" and id: "job_id (queue ?s ! i) = jid"
      and rm: "removeJob jid ?s =
         (Some (queue ?s ! i),
          ?s\<lparr>queue := take i (queue ?s) @ drop (Suc i) (queue ?s),
            trace := trace ?s @ [JobRemoved (queue ?s ! i)]\<rparr>)"
      by blast
    from r rm have j: "j = queue ?s ! i" by simp
    from i have mem: "queue ?s ! i \<in> set (queue ?s)" by simp
    from w mem have p: "pendingJob (queue ?s ! i)" by (simp add: wf_def list_all_iff)
    from distinct_map_nth_notin [OF dq i] id
    have n: "jid \<notin> job_id ` set (take i (queue ?s) @ drop (Suc i) (queue ?s))" by simp
    from i have l: "Suc (length (take i (queue ?s) @ drop (Suc i) (queue ?s))) = length (queue ?s)"
      by auto
    from j mem id p n l show ?thesis by (simp add: rm)
  qed
  have none: "removeJob jid ?s = (None, ?s)"
    if k: "jid \<in> (\<lambda>a. job_id (sjob a)) ` set (awaiting ?s) \<or>
           jid \<in> job_id ` set (finished (trace ?s)) \<or> jid \<notin> set (submitted es)"
  proof -
    from k dk sk have "jid \<notin> job_id ` set (queue ?s)"
      by (auto simp: knownIds_def)
    then show ?thesis by (rule removeJob_None)
  qed
  from iff some none removeJob_frame [of jid ?s]
  show "((\<exists>j. fst (removeJob jid ?s) = Some j) = (jid \<in> job_id ` set (queue ?s))) \<and>
   (\<forall>j. fst (removeJob jid ?s) = Some j \<longrightarrow>
      j \<in> set (queue ?s) \<and> job_id j = jid \<and> pendingJob j \<and>
      jid \<notin> job_id ` set (queue (snd (removeJob jid ?s))) \<and>
      Suc (length (queue (snd (removeJob jid ?s)))) = length (queue ?s)) \<and>
   activeJobs (snd (removeJob jid ?s)) = activeJobs ?s \<and>
   awaiting (snd (removeJob jid ?s)) = awaiting ?s \<and>
   processing (snd (removeJob jid ?s)) = processing ?s \<and>
   (jid \<in> (\<lambda>a. job_id (sjob a)) ` set (awaiting ?s) \<or>
    jid \<in> job_id ` set (finished (trace ?s)) \<or>
    jid \<notin> set (submitted es) \<longrightarrow>
      removeJob jid ?s = (None, ?s))"
    by blast
qed

theorem removeJob_pending_only_witness:
  "distinct (submitted priorityScenario) \<and>
   ''job_b'' \<in> (\<lambda>a. job_id (sjob a)) ` set (awaiting (run priorityScenario constructor)) \<and>
   removeJob ''job_b'' (run priorityScenario constructor)
     = (None, run priorityScenario constructor) \<and>
   ''job_a'' \<in> job_id ` set (finished (trace (run priorityScenario constructor))) \<and>
   removeJob ''job_a'' (run priorityScenario constructor)
     = (None, run priorityScenario constructor) \<and>
   ''job_c'' \<in> job_id ` set (queue (run priorityScenario constructor)) \<and>
   (\<exists>j. fst (removeJob ''job_c'' (run priorityScenario constructor)) = Some j) \<and>
   activeJobs (snd (removeJob ''job_c'' (run priorityScenario constructor)))
     = activeJobs (run priorityScenario constructor)"
proof -
  let ?s = "run priorityScenario constructor"
  have d: "distinct (submitted priorityScenario)" by (simp add: priorityScenario_def)
  have b: "''job_b'' \<in> (\<lambda>a. job_id (sjob a)) ` set (awaiting ?s)"
    by (simp add: priorityScenario_def eval_simps)
  have a: "''job_a'' \<in> job_id ` set (finished (trace ?s))"
    by (simp add: priorityScenario_def eval_simps)
  have c: "''job_c'' \<in> job_id ` set (queue ?s)"
    by (simp add: priorityScenario_def eval_simps)
  note Tb = removeJob_pending_only [of priorityScenario "''job_b''", THEN mp, OF d]
  note Ta = removeJob_pending_only [of priorityScenario "''job_a''", THEN mp, OF d]
  note Tc = removeJob_pending_only [of priorityScenario "''job_c''", THEN mp, OF d]
  from Tb have "''job_b'' \<in> (\<lambda>a. job_id (sjob a)) ` set (awaiting ?s) \<or>
      ''job_b'' \<in> job_id ` set (finished (trace ?s)) \<or>
      ''job_b'' \<notin> set (submitted priorityScenario) \<longrightarrow> removeJob ''job_b'' ?s = (None, ?s)"
    by (elim conjE)
  with b have rb: "removeJob ''job_b'' ?s = (None, ?s)" by (elim impE) (rule disjI1)
  from Ta have "''job_a'' \<in> (\<lambda>a. job_id (sjob a)) ` set (awaiting ?s) \<or>
      ''job_a'' \<in> job_id ` set (finished (trace ?s)) \<or>
      ''job_a'' \<notin> set (submitted priorityScenario) \<longrightarrow> removeJob ''job_a'' ?s = (None, ?s)"
    by (elim conjE)
  with a have ra: "removeJob ''job_a'' ?s = (None, ?s)"
    by (elim impE) (rule disjI2, rule disjI1)
  from Tc have "(\<exists>j. fst (removeJob ''job_c'' ?s) = Some j) = (''job_c'' \<in> job_id ` set (queue ?s))"
    by (elim conjE)
  from this c have rc: "\<exists>j. fst (removeJob ''job_c'' ?s) = Some j" by (rule iffD2)
  from Tc have rn: "activeJobs (snd (removeJob ''job_c'' ?s)) = activeJobs ?s"
    by (elim conjE)
  from d b rb a ra c rc rn show ?thesis by (intro conjI)
qed

text \<open>
  C8. \<open>clearQueue\<close> returns the number of pending jobs and leaves the queue empty; the
  counter \<open>activeJobs\<close>, the suspended runs, the \<open>processing\<close> flag and the ceiling are as
  before, and the trace gains the one notification. A job that was executing settles after
  the clearing as it would have without it, and in every run the job executing when the
  queue is cleared is reported finished by its settling.
\<close>

theorem clearQueue_only_pending:
  "fst (clearQueue s) = length (queue s) \<and>
   queue (snd (clearQueue s)) = [] \<and>
   activeJobs (snd (clearQueue s)) = activeJobs s \<and>
   awaiting (snd (clearQueue s)) = awaiting s \<and>
   processing (snd (clearQueue s)) = processing s \<and>
   maxConcurrent (snd (clearQueue s)) = maxConcurrent s \<and>
   trace (snd (clearQueue s)) = trace s @ [QueueCleared (length (queue s))] \<and>
   finished (trace (settle i outcome now (snd (clearQueue s))))
     = finished (trace (settle i outcome now s)) \<and>
   length (finished (trace (run (es @ [ClearQueue, Settle 0 outcome now]) constructor)))
     = length (finished (trace (run es constructor))) + length (awaiting (run es constructor))"
proof -
  have f: "finished (trace (settle i outcome now (snd (clearQueue s))))
     = finished (trace (settle i outcome now s))"
    by (simp add: settle_def clearQueue_def Let_def finished_dispatchLoop finished_append)
  let ?s = "run es constructor"
  have w: "wf ?s" by (rule wf_reached)
  have two: "es @ [ClearQueue, Settle 0 outcome now] = (es @ [ClearQueue]) @ [Settle 0 outcome now]"
    by simp
  have st: "run (es @ [ClearQueue, Settle 0 outcome now]) constructor
      = settle 0 outcome now (snd (clearQueue ?s))"
    by (simp only: two run_snoc step.simps)
  have l: "length (finished (trace (settle 0 outcome now (snd (clearQueue ?s)))))
      = length (finished (trace ?s)) + length (awaiting ?s)"
  proof (cases "awaiting ?s")
    case Nil
    then show ?thesis by (simp add: settle_def clearQueue_def Let_def finished_append)
  next
    case (Cons a as)
    with w have "as = []" by (simp add: wf_def)
    with Cons show ?thesis
      by (simp add: settle_def clearQueue_def Let_def finished_dispatchLoop finished_append
          split: sum.splits)
  qed
  from f l show ?thesis unfolding st by (simp add: clearQueue_def Let_def)
qed

subsection \<open>Failing routines\<close>

text \<open>
  C9. In every run, when the routine called for an awaited job raises an error with message
  \<open>msg\<close>, the job is reported failed with exactly that message in its error field and no
  result. It is not queued again: the queue only loses its head, which is started in the
  same step if there is one, so the dispatch loop goes on with the next pending job and the
  \<open>processing\<close> flag stays set exactly when there was one.
\<close>

theorem routine_error_fails_job:
  "i < length (awaiting (run es constructor)) \<and>
   promise (awaiting (run es constructor) ! i) = Inr c \<longrightarrow>
     finished (trace (run (es @ [Settle i (Inl msg) t]) constructor)) =
       finished (trace (run es constructor)) @
         [(sjob (awaiting (run es constructor) ! i))
            \<lparr>status := ''failed'', failedAt := Some t, error := Some msg\<rparr>] \<and>
     result (sjob (awaiting (run es constructor) ! i)) = None \<and>
     queue (run (es @ [Settle i (Inl msg) t]) constructor) = drop 1 (queue (run es constructor)) \<and>
     map sjob (awaiting (run (es @ [Settle i (Inl msg) t]) constructor)) =
       map (\<lambda>j. j\<lparr>status := ''processing'', startedAt := Some t\<rparr>)
         (take 1 (queue (run es constructor))) \<and>
     started (trace (run (es @ [Settle i (Inl msg) t]) constructor)) =
       started (trace (run es constructor)) @ take 1 (queue (run es constructor)) \<and>
     processing (run (es @ [Settle i (Inl msg) t]) constructor)
       = (queue (run es constructor) \<noteq> [])"
proof
  let ?s = "run es constructor"
  assume h: "i < length (awaiting ?s) \<and> promise (awaiting ?s ! i) = Inr c"
  have w: "wf ?s" by (rule wf_reached)
  from h w obtain a where aw: "awaiting ?s = [a]" and i0: "i = 0"
    by (cases "awaiting ?s") (auto simp: wf_def)
  from h aw i0 have p: "promise a = Inr c" by simp
  from w aw have r: "result (sjob a) = None" and ac: "activeJobs ?s = 1"
    and mc: "maxConcurrent ?s = 2" and pr: "processing ?s"
    by (simp_all add: wf_def)
  have st: "run (es @ [Settle i (Inl msg) t]) constructor = settle 0 (Inl msg) t ?s"
    by (simp only: run_snoc step.simps i0)
  show "finished (trace (run (es @ [Settle i (Inl msg) t]) constructor)) =
       finished (trace ?s) @
         [(sjob (awaiting ?s ! i))\<lparr>status := ''failed'', failedAt := Some t, error := Some msg\<rparr>] \<and>
     result (sjob (awaiting ?s ! i)) = None \<and>
     queue (run (es @ [Settle i (Inl msg) t]) constructor) = drop 1 (queue ?s) \<and>
     map sjob (awaiting (run (es @ [Settle i (Inl msg) t]) constructor)) =
       map (\<lambda>j. j\<lparr>status := ''processing'', startedAt := Some t\<rparr>) (take 1 (queue ?s)) \<and>
     started (trace (run (es @ [Settle i (Inl msg) t]) constructor)) =
       started (trace ?s) @ take 1 (queue ?s) \<and>
     processing (run (es @ [Settle i (Inl msg) t]) constructor) = (queue ?s \<noteq> [])"
    unfolding st using aw i0 p r ac mc pr
    by (cases "queue ?s")
       (simp_all add: settle_def dispatchLoop_def Let_def finished_append started_append
          split: sum.splits)
qed

theorem routine_error_fails_job_witness:
  "0 < length (awaiting (run threeSubmissions constructor)) \<and>
   promise (awaiting (run threeSubmissions constructor) ! 0)
     = Inr (ResizeImage ''uploads/sample'' \<lparr>mimetype = Some ''image/png'', others = []\<rparr>) \<and>
   map (\<lambda>j. (job_id j, status j, error j, result j))
     (finished (trace (run (threeSubmissions @ [Settle 0 (Inl ''Image resize failed: boom'') 7])
        constructor)))
     = [(''job_1'', ''failed'', Some ''Image resize failed: boom'', None)] \<and>
   map job_id
     (started (trace (run (threeSubmissions @ [Settle 0 (Inl ''Image resize failed: boom'') 7])
        constructor)))
     = [''job_1'', ''job_2''] \<and>
   processing (run (threeSubmissions @ [Settle 0 (Inl ''Image resize failed: boom'') 7])
     constructor)"
proof -
  let ?s = "run threeSubmissions constructor"
  let ?s' = "run (threeSubmissions @ [Settle 0 (Inl ''Image resize failed: boom'') 7]) constructor"
  have h1: "0 < length (awaiting ?s)" by (simp add: threeSubmissions_def eval_simps)
  have h2: "promise (awaiting ?s ! 0)
     = Inr (ResizeImage ''uploads/sample'' \<lparr>mimetype = Some ''image/png'', others = []\<rparr>)"
    by (simp add: threeSubmissions_def eval_simps)
  note T = routine_error_fails_job [of 0 threeSubmissions
      "ResizeImage ''uploads/sample'' \<lparr>mimetype = Some ''image/png'', others = []\<rparr>"
      "''Image resize failed: boom''" 7, THEN mp, OF conjI [OF h1 h2]]
  from T have F: "finished (trace ?s') = finished (trace ?s) @
      [(sjob (awaiting ?s ! 0))\<lparr>status := ''failed'', failedAt := Some 7,
         error := Some ''Image resize failed: boom''\<rparr>]"
    by (elim conjE)
  from T have S: "started (trace ?s') = started (trace ?s) @ take 1 (queue ?s)"
    by (elim conjE)
  from T have P: "processing ?s' = (queue ?s \<noteq> [])"
    by (elim conjE)
  have c1: "map (\<lambda>j. (job_id j, status j, error j, result j)) (finished (trace ?s'))
     = [(''job_1'', ''failed'', Some ''Image resize failed: boom'', None)]"
    unfolding F by (simp add: threeSubmissions_def eval_simps)
  have c2: "map job_id (started (trace ?s')) = [''job_1'', ''job_2'']"
    unfolding S by (simp add: threeSubmissions_def eval_simps)
  have c3: "processing ?s'"
    unfolding P by (simp add: threeSubmissions_def eval_simps)
  from h1 h2 c1 c2 c3 show ?thesis by (intro conjI)
qed

subsection \<open>Looking a job up\<close>

lemma getJobStatus_NotFound: "(getJobStatus jid s = NotFound) = (jid \<notin> job_id ` set (queue s))"
proof -
  have "(getJobStatus jid s = NotFound) = (find (\<lambda>j. job_id j = jid) (queue s) = None)"
    by (simp add: getJobStatus_def split: option.splits)
  also have "\<dots> = (jid \<notin> job_id ` set (queue s))"
    by (auto simp: find_None_iff)
  finally show ?thesis .
qed

lemma getJobStatus_Found:
  "getJobStatus jid s = Found sn \<Longrightarrow>
   \<exists>j\<in>set (queue s). job_id j = jid \<and> snap_id sn = job_id j \<and> snap_status sn = status j \<and>
     snap_startedAt sn = startedAt j \<and> snap_error sn = error j \<and> snap_result sn = result j"
  by (auto simp: getJobStatus_def find_Some_iff split: option.splits)

lemma statusOf_pending:
  "list_all pendingJob (queue s) \<Longrightarrow>
   statusOf (getJobStatus jid s) = ''queued'' \<or> statusOf (getJobStatus jid s) = ''not_found''"
proof (cases "getJobStatus jid s")
  case NotFound
  then show ?thesis by simp
next
  case (Found sn)
  assume "list_all pendingJob (queue s)"
  with getJobStatus_Found [OF Found] show ?thesis
    using Found by (auto simp: list_all_iff pendingJob_def)
qed

text \<open>
  What \<open>getJobStatus\<close> can answer. In a run whose submissions carry distinct identifiers
  it answers \<^verbatim>\<open>'queued'\<close> or \<^verbatim>\<open>'not_found'\<close> and nothing else; it finds a job exactly
  while the job is pending, and the start time, error and result of the snapshot are then
  always empty. A job that is executing or has completed or failed is not found.
\<close>

lemma getJobStatus_pending_only:
  "distinct (submitted es) \<longrightarrow>
   (statusOf (getJobStatus jid (run es constructor)) = ''queued'' \<or>
    statusOf (getJobStatus jid (run es constructor)) = ''not_found'') \<and>
   ((getJobStatus jid (run es constructor) = NotFound)
      = (jid \<notin> job_id ` set (queue (run es constructor)))) \<and>
   (\<forall>sn. getJobStatus jid (run es constructor) = Found sn \<longrightarrow>
      snap_id sn = jid \<and> snap_status sn = ''queued'' \<and> snap_startedAt sn = None \<and>
      snap_error sn = None \<and> snap_result sn = None) \<and>
   (jid \<in> (\<lambda>a. job_id (sjob a)) ` set (awaiting (run es constructor)) \<or>
    jid \<in> job_id ` set (finished (trace (run es constructor))) \<longrightarrow>
      getJobStatus jid (run es constructor) = NotFound) \<and>
   (\<not> processing (run es constructor) \<longrightarrow>
      getJobStatus new (run (es @ [AddJob sp new now]) constructor) = NotFound) \<and>
   (processing (run es constructor) \<longrightarrow>
      statusOf (getJobStatus new (run (es @ [AddJob sp new now]) constructor)) = ''queued'')"
proof
  let ?s = "run es constructor"
  let ?s' = "run (es @ [AddJob sp new now]) constructor"
  assume d: "distinct (submitted es)"
  have w: "wf ?s" by (rule wf_reached)
  have w': "wf ?s'" by (rule wf_reached)
  from w have pq: "list_all pendingJob (queue ?s)" by (simp add: wf_def)
  from w' have pq': "list_all pendingJob (queue ?s')" by (simp add: wf_def)
  from ids_run [OF d] have dk: "distinct (knownIds ?s)" by simp
  have c1: "statusOf (getJobStatus jid ?s) = ''queued'' \<or>
      statusOf (getJobStatus jid ?s) = ''not_found''"
    by (rule statusOf_pending [OF pq])
  have c2: "(getJobStatus jid ?s = NotFound) = (jid \<notin> job_id ` set (queue ?s))"
    by (rule getJobStatus_NotFound)
  have c3: "snap_id sn = jid \<and> snap_status sn = ''queued'' \<and> snap_startedAt sn = None \<and>
      snap_error sn = None \<and> snap_result sn = None"
    if f: "getJobStatus jid ?s = Found sn" for sn
    using getJobStatus_Found [OF f] pq by (auto simp: list_all_iff pendingJob_def)
  have c4: "getJobStatus jid ?s = NotFound"
    if k: "jid \<in> (\<lambda>a. job_id (sjob a)) ` set (awaiting ?s) \<or>
           jid \<in> job_id ` set (finished (trace ?s))"
  proof -
    from k dk have "jid \<notin> job_id ` set (queue ?s)" by (auto simp: knownIds_def)
    then show ?thesis by (simp add: getJobStatus_NotFound)
  qed
  have c5: "getJobStatus new ?s' = NotFound" if idle: "\<not> processing ?s"
  proof -
    from w idle have "queue ?s = []" "awaiting ?s = []" "activeJobs ?s = 0" "maxConcurrent ?s = 2"
      by (auto simp: wf_def)
    with idle have "queue ?s' = []"
      by (simp add: run_snoc addJob_def processNext_def dispatchLoop_def Let_def)
    then show ?thesis by (simp add: getJobStatus_NotFound)
  qed
  have c6: "statusOf (getJobStatus new ?s') = ''queued''" if busy: "processing ?s"
  proof -
    from busy have "queue ?s' = queue ?s @ [makeJob sp new now]"
      by (simp add: run_snoc addJob_def processNext_def Let_def)
    then have "new \<in> job_id ` set (queue ?s')" by (simp add: makeJob_def)
    then have "getJobStatus new ?s' \<noteq> NotFound" by (simp add: getJobStatus_NotFound)
    then have "statusOf (getJobStatus new ?s') \<noteq> ''not_found''"
      using pq' getJobStatus_Found [of new ?s']
      by (cases "getJobStatus new ?s'") (auto simp: list_all_iff pendingJob_def)
    with statusOf_pending [OF pq', of new] show ?thesis by blast
  qed
  from c1 c2 c3 c4 c5 c6
  show "(statusOf (getJobStatus jid ?s) = ''queued'' \<or>
    statusOf (getJobStatus jid ?s) = ''not_found'') \<and>
   ((getJobStatus jid ?s = NotFound) = (jid \<notin> job_id ` set (queue ?s))) \<and>
   (\<forall>sn. getJobStatus jid ?s = Found sn \<longrightarrow>
      snap_id sn = jid \<and> snap_status sn = ''queued'' \<and> snap_startedAt sn = None \<and>
      snap_error sn = None \<and> snap_result sn = None) \<and>
   (jid \<in> (\<lambda>a. job_id (sjob a)) ` set (awaiting ?s) \<or>
    jid \<in> job_id ` set (finished (trace ?s)) \<longrightarrow>
      getJobStatus jid ?s = NotFound) \<and>
   (\<not> processing ?s \<longrightarrow> getJobStatus new ?s' = NotFound) \<and>
   (processing ?s \<longrightarrow> statusOf (getJobStatus new ?s') = ''queued'')"
    by blast
qed

text \<open>
  C2. One job on a fresh queue. When \<open>addJob\<close> has returned the job is executing, with
  status \<^verbatim>\<open>'processing'\<close>, and \<open>getJobStatus\<close> answers \<^verbatim>\<open>'not_found'\<close> for the identifier
  returned, where the claim has \<^verbatim>\<open>'queued'\<close> and then \<^verbatim>\<open>'processing'\<close>. When its routine
  has returned the job is reported completed with its result, and \<open>getJobStatus\<close> still
  answers \<^verbatim>\<open>'not_found'\<close>, where the claim has \<^verbatim>\<open>'completed'\<close>.
\<close>

theorem getJobStatus_loses_started_job:
  "fst (addJob (exampleSpec ''image'' ''resize'' None) ''job_1'' 1 constructor) = ''job_1'' \<and>
   map (\<lambda>a. (job_id (sjob a), status (sjob a)))
     (awaiting (snd (addJob (exampleSpec ''image'' ''resize'' None) ''job_1'' 1 constructor)))
     = [(''job_1'', ''processing'')] \<and>
   statusOf (getJobStatus ''job_1''
     (snd (addJob (exampleSpec ''image'' ''resize'' None) ''job_1'' 1 constructor)))
     = ''not_found'' \<and>
   map (\<lambda>j. (job_id j, status j, result j)) (finished (trace (run singleJobDone constructor)))
     = [(''job_1'', ''completed'', Some ''done'')] \<and>
   statusOf (getJobStatus ''job_1'' (run singleJobDone constructor)) = ''not_found''"
proof -
  have a: "fst (addJob (exampleSpec ''image'' ''resize'' None) ''job_1'' 1 constructor) = ''job_1''"
    by (simp add: addJob_def Let_def)
  have b: "map (\<lambda>a. (job_id (sjob a), status (sjob a)))
     (awaiting (snd (addJob (exampleSpec ''image'' ''resize'' None) ''job_1'' 1 constructor)))
     = [(''job_1'', ''processing'')]"
    by (simp add: eval_simps)
  have c: "statusOf (getJobStatus ''job_1''
     (snd (addJob (exampleSpec ''image'' ''resize'' None) ''job_1'' 1 constructor)))
     = ''not_found''"
    by (simp add: eval_simps)
  have d: "map (\<lambda>j. (job_id j, status j, result j)) (finished (trace (run singleJobDone constructor)))
     = [(''job_1'', ''completed'', Some ''done'')]"
    by (simp add: singleJobDone_def eval_simps)
  have e: "statusOf (getJobStatus ''job_1'' (run singleJobDone constructor)) = ''not_found''"
    by (simp add: singleJobDone_def eval_simps)
  from a b c d e show ?thesis by (intro conjI)
qed

end
